theory Spec2Isabelle
  imports Main "HOL-Library.Word"
begin

section \<open>The reader/writer lock of \<open>sync.RWMutex\<close>\<close>

text \<open>
  The source is the Go file defining \<open>RWMutex\<close> with the methods \<open>RLock\<close>,
  \<open>TryRLock\<close>, \<open>RUnlock\<close> (with \<open>rUnlockSlow\<close>), \<open>Lock\<close>, \<open>TryLock\<close> and
  \<open>Unlock\<close>. Every operation is a short sequence of atomic operations on the shared
  fields, so it is embedded as a small-step function: one step is one atomic
  operation of the source together with the purely local computation that follows
  it. The race-detector hooks (\<open>if race.Enabled { ... }\<close>) have no functional
  effect and are left out.
\<close>

subsection \<open>Data model\<close>

type_synonym int32 = "32 word"

text \<open>
  \<open>type RWMutex struct { w Mutex; writerSem uint32; readerSem uint32;
  readerCount atomic.Int32; readerWait atomic.Int32 }\<close>.

  Modelled from the spec: the embedded \<open>Mutex\<close> and the runtime semaphore
  primitives (\<open>runtime_SemacquireRWMutexR\<close>, \<open>runtime_SemacquireRWMutex\<close>,
  \<open>runtime_Semrelease\<close>) are not part of the source. The spec treats them as
  opaque capabilities: a binary mutex with \<open>lock\<close>, \<open>tryLock\<close> and \<open>unlock\<close>,
  and a counting semaphore whose \<open>acquire\<close> blocks until a permit is available
  and takes it. So \<open>w\<close> is the flag "held", and a semaphore is its number of
  available permits. Every call of \<open>runtime_Semrelease\<close> in the source makes one
  permit available (its other arguments are the hand-off flag and the number of
  stack frames to skip in traces).
\<close>

record RWMutex =
  w :: bool
  writerSem :: nat
  readerSem :: nat
  readerCount :: int32
  readerWait :: int32

text \<open>\<open>const rwmutexMaxReaders = 1 << 30\<close>\<close>

definition rwmutexMaxReaders :: int32 where
  "rwmutexMaxReaders = push_bit 30 1"

text \<open>The zero value of the struct: an unlocked lock.\<close>

definition zero_RWMutex :: RWMutex where
  "zero_RWMutex = \<lparr>w = False, writerSem = 0, readerSem = 0, readerCount = 0, readerWait = 0\<rparr>"

subsection \<open>Program points, results and visible operations\<close>

text \<open>
  A program point names the atomic operation a call is about to perform and carries
  the local variables that are live there (\<open>c\<close> in \<open>TryRLock\<close>, \<open>r\<close> in \<open>Lock\<close>,
  \<open>r\<close> and \<open>i\<close> in \<open>Unlock\<close>).
\<close>

datatype pc =
    RLock_Add
  | RLock_Sem
  | TryRLock_Load
  | TryRLock_CAS int32
  | RUnlock_Add
  | RUnlockSlow_Wait
  | RUnlockSlow_Sem
  | Lock_W
  | Lock_Add
  | Lock_Wait int32
  | Lock_Sem
  | TryLock_W
  | TryLock_CAS
  | TryLock_Unlock
  | Unlock_Add
  | Unlock_Loop int32 int

datatype operation = M_RLock | M_TryRLock | M_RUnlock | M_Lock | M_TryLock | M_Unlock

fun entry :: "operation \<Rightarrow> pc" where
  "entry M_RLock = RLock_Add"
| "entry M_TryRLock = TryRLock_Load"
| "entry M_RUnlock = RUnlock_Add"
| "entry M_Lock = Lock_W"
| "entry M_TryLock = TryLock_W"
| "entry M_Unlock = Unlock_Add"

fun op_of :: "pc \<Rightarrow> operation" where
  "op_of RLock_Add = M_RLock"
| "op_of RLock_Sem = M_RLock"
| "op_of TryRLock_Load = M_TryRLock"
| "op_of (TryRLock_CAS c) = M_TryRLock"
| "op_of RUnlock_Add = M_RUnlock"
| "op_of RUnlockSlow_Wait = M_RUnlock"
| "op_of RUnlockSlow_Sem = M_RUnlock"
| "op_of Lock_W = M_Lock"
| "op_of Lock_Add = M_Lock"
| "op_of (Lock_Wait r) = M_Lock"
| "op_of Lock_Sem = M_Lock"
| "op_of TryLock_W = M_TryLock"
| "op_of TryLock_CAS = M_TryLock"
| "op_of TryLock_Unlock = M_TryLock"
| "op_of Unlock_Add = M_Unlock"
| "op_of (Unlock_Loop r i) = M_Unlock"

text \<open>What a call returns: nothing, or the boolean of the Try variants.\<close>

datatype retval = Unit | Bool bool

text \<open>
  After a step a call goes on at another program point, returns, or dies in
  \<open>fatal(msg)\<close>, which does not return.
\<close>

datatype outcome = Next pc | Return retval | Fatal string

text \<open>The shared-memory operation a step performs, with its operands and result.\<close>

datatype field = ReaderCount | ReaderWait

datatype sem = WriterSem | ReaderSem

datatype action =
    MutexLock
  | MutexTryLock bool
  | MutexUnlock
  | AtomicAdd field int32 int32
  | AtomicLoad field int32
  | AtomicCAS field int32 int32 bool
  | SemAcquire sem
  | SemRelease sem
  | Parked

subsection \<open>The methods, one atomic operation at a time\<close>

text \<open>
  \<open>step pc s\<close> is \<open>None\<close> when the operation at \<open>pc\<close> cannot proceed in \<open>s\<close>: the
  caller is blocked in \<open>rw.w.Lock()\<close> or in a semaphore acquire. Signed comparisons
  of the \<open>int32\<close> values read them through \<open>sint\<close>; additions wrap around.
\<close>

fun step :: "pc \<Rightarrow> RWMutex \<Rightarrow> (action \<times> outcome \<times> RWMutex) option" where
  "step RLock_Add s =
     (let v = readerCount s + 1 in
      Some (AtomicAdd ReaderCount 1 v,
            if sint v < 0 then Next RLock_Sem else Return Unit,
            s\<lparr>readerCount := v\<rparr>))"
| "step RLock_Sem s =
     (if readerSem s = 0 then None
      else Some (SemAcquire ReaderSem, Return Unit, s\<lparr>readerSem := readerSem s - 1\<rparr>))"
| "step TryRLock_Load s =
     (let c = readerCount s in
      Some (AtomicLoad ReaderCount c,
            if sint c < 0 then Return (Bool False) else Next (TryRLock_CAS c),
            s))"
| "step (TryRLock_CAS c) s =
     (if readerCount s = c
      then Some (AtomicCAS ReaderCount c (c + 1) True, Return (Bool True),
                 s\<lparr>readerCount := c + 1\<rparr>)
      else Some (AtomicCAS ReaderCount c (c + 1) False, Next TryRLock_Load, s))"
| "step RUnlock_Add s =
     (let r = readerCount s + (- 1) in
      Some (AtomicAdd ReaderCount (- 1) r,
            if sint r < 0
            then (if r + 1 = 0 \<or> r + 1 = - rwmutexMaxReaders
                  then Fatal ''sync: RUnlock of unlocked RWMutex''
                  else Next RUnlockSlow_Wait)
            else Return Unit,
            s\<lparr>readerCount := r\<rparr>))"
| "step RUnlockSlow_Wait s =
     (let v = readerWait s + (- 1) in
      Some (AtomicAdd ReaderWait (- 1) v,
            if v = 0 then Next RUnlockSlow_Sem else Return Unit,
            s\<lparr>readerWait := v\<rparr>))"
| "step RUnlockSlow_Sem s =
     Some (SemRelease WriterSem, Return Unit, s\<lparr>writerSem := writerSem s + 1\<rparr>)"
| "step Lock_W s =
     (if w s then None else Some (MutexLock, Next Lock_Add, s\<lparr>w := True\<rparr>))"
| "step Lock_Add s =
     (let v = readerCount s + (- rwmutexMaxReaders);
          r = v + rwmutexMaxReaders in
      Some (AtomicAdd ReaderCount (- rwmutexMaxReaders) v,
            if r \<noteq> 0 then Next (Lock_Wait r) else Return Unit,
            s\<lparr>readerCount := v\<rparr>))"
| "step (Lock_Wait r) s =
     (let v = readerWait s + r in
      Some (AtomicAdd ReaderWait r v,
            if v \<noteq> 0 then Next Lock_Sem else Return Unit,
            s\<lparr>readerWait := v\<rparr>))"
| "step Lock_Sem s =
     (if writerSem s = 0 then None
      else Some (SemAcquire WriterSem, Return Unit, s\<lparr>writerSem := writerSem s - 1\<rparr>))"
| "step TryLock_W s =
     (if w s then Some (MutexTryLock False, Return (Bool False), s)
      else Some (MutexTryLock True, Next TryLock_CAS, s\<lparr>w := True\<rparr>))"
| "step TryLock_CAS s =
     (if readerCount s = 0
      then Some (AtomicCAS ReaderCount 0 (- rwmutexMaxReaders) True, Return (Bool True),
                 s\<lparr>readerCount := - rwmutexMaxReaders\<rparr>)
      else Some (AtomicCAS ReaderCount 0 (- rwmutexMaxReaders) False, Next TryLock_Unlock, s))"
| "step TryLock_Unlock s =
     Some (MutexUnlock, Return (Bool False), s\<lparr>w := False\<rparr>)"
| "step Unlock_Add s =
     (let r = readerCount s + rwmutexMaxReaders in
      Some (AtomicAdd ReaderCount rwmutexMaxReaders r,
            if sint rwmutexMaxReaders \<le> sint r
            then Fatal ''sync: Unlock of unlocked RWMutex''
            else Next (Unlock_Loop r 0),
            s\<lparr>readerCount := r\<rparr>))"
| "step (Unlock_Loop r i) s =
     (if i < sint r
      then Some (SemRelease ReaderSem, Next (Unlock_Loop r (i + 1)),
                 s\<lparr>readerSem := readerSem s + 1\<rparr>)
      else Some (MutexUnlock, Return Unit, s\<lparr>w := False\<rparr>))"

subsection \<open>One call under interference\<close>

text \<open>
  A call runs its steps while other threads change the lock in between. \<open>run es pc s\<close>
  runs the call from \<open>pc\<close>: before each of its steps the next element of \<open>es\<close> is
  applied to the lock (what the other threads did meanwhile; \<open>id\<close> when nothing
  happened). A step that cannot proceed is recorded as \<open>Parked\<close> and tried again
  after the next interference. The result is how far the call got when \<open>es\<close> was
  used up, the lock as the call last left it, and the operations the call performed.
\<close>

datatype result = Unfinished pc | Returned retval | Fataled string

fun run :: "(RWMutex \<Rightarrow> RWMutex) list \<Rightarrow> pc \<Rightarrow> RWMutex \<Rightarrow> result \<times> RWMutex \<times> action list" where
  "run [] pc s = (Unfinished pc, s, [])"
| "run (e # es) pc s =
     (case step pc (e s) of
        None \<Rightarrow> (case run es pc (e s) of (res, s', tr) \<Rightarrow> (res, s', Parked # tr))
      | Some (a, Next pc', s') \<Rightarrow> (case run es pc' s' of (res, s'', tr) \<Rightarrow> (res, s'', a # tr))
      | Some (a, Return v, s') \<Rightarrow> (Returned v, s', [a])
      | Some (a, Fatal m, s') \<Rightarrow> (Fataled m, s', [a]))"

text \<open>A call that runs alone for \<open>n\<close> steps.\<close>

definition solo :: "nat \<Rightarrow> operation \<Rightarrow> RWMutex \<Rightarrow> result \<times> RWMutex \<times> action list" where
  "solo n m s = run (replicate n id) (entry m) s"

subsection \<open>Threads using the lock\<close>

text \<open>
  A thread is outside the lock (\<open>Idle\<close>), inside a read or a write critical section,
  or inside a call. Threads follow the protocol of the lock: \<open>RUnlock\<close> is called
  from a read critical section, \<open>Unlock\<close> from a write critical section, and the
  four acquiring methods from outside.
\<close>

datatype thread = Idle | Reading | Writing | Running pc

fun may_call :: "thread \<Rightarrow> operation \<Rightarrow> bool" where
  "may_call Idle m = (m = M_RLock \<or> m = M_TryRLock \<or> m = M_Lock \<or> m = M_TryLock)"
| "may_call Reading m = (m = M_RUnlock)"
| "may_call Writing m = (m = M_Unlock)"
| "may_call (Running pc) m = False"

text \<open>Where a thread is once a call of the operation has returned.\<close>

fun after :: "operation \<Rightarrow> retval \<Rightarrow> thread" where
  "after M_RLock v = Reading"
| "after M_TryRLock v = (if v = Bool True then Reading else Idle)"
| "after M_RUnlock v = Idle"
| "after M_Lock v = Writing"
| "after M_TryLock v = (if v = Bool True then Writing else Idle)"
| "after M_Unlock v = Idle"

record system =
  lock :: RWMutex
  threads :: "thread list"
  dead :: bool

definition init :: "nat \<Rightarrow> system" where
  "init n = \<lparr>lock = zero_RWMutex, threads = replicate n Idle, dead = False\<rparr>"

text \<open>
  An event is a thread calling one of the operations or a thread in a call performing its next
  atomic operation. \<open>fire\<close> is \<open>None\<close> when the event cannot happen: the thread
  does not exist, may not make the call, is not in a call, is blocked, or the
  process has died in \<open>fatal\<close>.
\<close>

datatype event = Call nat operation | Step nat

fun fire :: "event \<Rightarrow> system \<Rightarrow> system option" where
  "fire (Call t m) \<sigma> =
     (if t < length (threads \<sigma>) \<and> \<not> dead \<sigma> \<and> may_call (threads \<sigma> ! t) m
      then Some (\<sigma>\<lparr>threads := (threads \<sigma>)[t := Running (entry m)]\<rparr>)
      else None)"
| "fire (Step t) \<sigma> =
     (if t < length (threads \<sigma>) \<and> \<not> dead \<sigma>
      then (case threads \<sigma> ! t of
              Running pc \<Rightarrow>
                (case step pc (lock \<sigma>) of
                   None \<Rightarrow> None
                 | Some (a, Next pc', s') \<Rightarrow>
                     Some (\<sigma>\<lparr>lock := s', threads := (threads \<sigma>)[t := Running pc']\<rparr>)
                 | Some (a, Return v, s') \<Rightarrow>
                     Some (\<sigma>\<lparr>lock := s', threads := (threads \<sigma>)[t := after (op_of pc) v]\<rparr>)
                 | Some (a, Fatal m, s') \<Rightarrow>
                     Some (\<sigma>\<lparr>lock := s', dead := True\<rparr>))
            | _ \<Rightarrow> None)
      else None)"

fun fire_all :: "event list \<Rightarrow> system \<Rightarrow> system option" where
  "fire_all [] \<sigma> = Some \<sigma>"
| "fire_all (e # es) \<sigma> = (case fire e \<sigma> of None \<Rightarrow> None | Some \<sigma>' \<Rightarrow> fire_all es \<sigma>')"

text \<open>The states some interleaving of \<open>n\<close> threads reaches from the zero value.\<close>

inductive reachable :: "nat \<Rightarrow> system \<Rightarrow> bool" for n :: nat where
  reachable_init: "reachable n (init n)"
| reachable_fire: "reachable n \<sigma> \<Longrightarrow> fire e \<sigma> = Some \<sigma>' \<Longrightarrow> reachable n \<sigma>'"

section \<open>Roles of the threads and the invariant of the lock\<close>

text \<open>
  What a thread contributes to the shared counters depends only on how far it is in
  its call. A reader is \<open>R_Active\<close> once its increment of \<open>readerCount\<close> gave it the
  lock and until its decrement, \<open>R_Queued\<close> while it waits on \<open>readerSem\<close>,
  \<open>R_Leaving\<close> between the decrement of \<open>readerCount\<close> and that of \<open>readerWait\<close> in
  \<open>rUnlockSlow\<close>, and \<open>R_Waking\<close> when it is about to release \<open>writerSem\<close>. A
  writer is \<open>W_Entering\<close> while it holds \<open>w\<close> and has not yet subtracted
  \<open>rwmutexMaxReaders\<close>, \<open>W_Announced\<close> between the subtraction and the addition to
  \<open>readerWait\<close>, \<open>W_Parked\<close> at \<open>writerSem\<close>, \<open>W_Inside\<close> from the return of
  \<open>Lock\<close> to the addition in \<open>Unlock\<close>, and \<open>W_Leaving\<close> in the loop of \<open>Unlock\<close>.
  Every other thread is \<open>R_Out\<close>.
\<close>

datatype role = R_Out | R_Active | R_Queued | R_Leaving | R_Waking | W_Entering | W_Announced | W_Parked | W_Inside | W_Leaving

fun role_of :: "thread \<Rightarrow> role" where
  "role_of Idle = R_Out"
| "role_of Reading = R_Active"
| "role_of Writing = W_Inside"
| "role_of (Running RLock_Add) = R_Out"
| "role_of (Running RLock_Sem) = R_Queued"
| "role_of (Running TryRLock_Load) = R_Out"
| "role_of (Running (TryRLock_CAS c)) = R_Out"
| "role_of (Running RUnlock_Add) = R_Active"
| "role_of (Running RUnlockSlow_Wait) = R_Leaving"
| "role_of (Running RUnlockSlow_Sem) = R_Waking"
| "role_of (Running Lock_W) = R_Out"
| "role_of (Running Lock_Add) = W_Entering"
| "role_of (Running (Lock_Wait r)) = W_Announced"
| "role_of (Running Lock_Sem) = W_Parked"
| "role_of (Running TryLock_W) = R_Out"
| "role_of (Running TryLock_CAS) = W_Entering"
| "role_of (Running TryLock_Unlock) = W_Entering"
| "role_of (Running Unlock_Add) = W_Inside"
| "role_of (Running (Unlock_Loop r i)) = W_Leaving"

text \<open>The number of threads in a role, and the sum of a local quantity over the threads.\<close>

definition cnt :: "role \<Rightarrow> thread list \<Rightarrow> int" where
  "cnt k ts = int (length (filter (\<lambda>t. role_of t = k) ts))"

definition tot :: "(thread \<Rightarrow> int) \<Rightarrow> thread list \<Rightarrow> int" where
  "tot f ts = sum_list (map f ts)"

text \<open>
  The local \<open>r\<close> of a writer between the two atomic additions of \<open>Lock\<close>, and the
  number of releases a writer in the loop of \<open>Unlock\<close> still has to make.
\<close>

definition lwv :: "thread \<Rightarrow> int" where
  "lwv x = (case x of Running (Lock_Wait r) \<Rightarrow> sint r | _ \<Rightarrow> 0)"

definition pend :: "thread \<Rightarrow> int" where
  "pend x = (case x of Running (Unlock_Loop r i) \<Rightarrow> sint r - i | _ \<Rightarrow> 0)"

text \<open>What holds of the local variables of a thread by itself.\<close>

definition ok :: "thread \<Rightarrow> bool" where
  "ok x = (case x of Running (TryRLock_CAS c) \<Rightarrow> 0 \<le> sint c
           | Running (Unlock_Loop r i) \<Rightarrow> i \<le> sint r
           | _ \<Rightarrow> True)"

text \<open>
  The invariant, as a statement about numbers: \<open>n\<close> threads, the mutex flag, the two
  counters read as integers, the permits of the two semaphores, the number of threads
  in each role (\<open>N\<close> outside, \<open>A\<close> active, \<open>P\<close> queued, \<open>S\<close> leaving, \<open>Q\<close> waking
  readers; \<open>H0\<close>, \<open>LW\<close>, \<open>LS\<close>, \<open>Wr\<close>, \<open>UL\<close> for the writer roles), the announced
  \<open>r\<close> and the pending releases. \<open>1073741824\<close> is \<open>2 ^ 30\<close>.
\<close>

definition ainv :: "int \<Rightarrow> bool \<Rightarrow> int \<Rightarrow> int \<Rightarrow> int \<Rightarrow> int \<Rightarrow> int \<Rightarrow> int \<Rightarrow> int \<Rightarrow> int \<Rightarrow> int \<Rightarrow> int \<Rightarrow> int \<Rightarrow> int \<Rightarrow> int \<Rightarrow> int \<Rightarrow> int \<Rightarrow> int \<Rightarrow> bool" where
  "ainv n wb rc rw rs ws N A P S Q H0 LW LS Wr UL lw pd \<longleftrightarrow>
     n \<le> 1073741824 \<and> N + A + P + S + Q + H0 + LW + LS + Wr + UL = n \<and>
     0 \<le> N \<and> 0 \<le> A \<and> 0 \<le> P \<and> 0 \<le> S \<and> 0 \<le> Q \<and> 0 \<le> H0 \<and> 0 \<le> LW \<and> 0 \<le> LS \<and> 0 \<le> Wr \<and> 0 \<le> UL \<and>
     0 \<le> rs \<and> 0 \<le> ws \<and>
     H0 + LW + LS + Wr + UL = (if wb then 1 else 0) \<and>
     rc = A + P - 1073741824 * (LW + LS + Wr) \<and>
     (LW + LS = 0 \<longrightarrow> rw = 0 \<and> S = 0 \<and> Q = 0 \<and> ws = 0) \<and>
     (LW + LS + Wr + UL = 0 \<longrightarrow> P = rs) \<and>
     (0 < Wr \<longrightarrow> A = 0 \<and> rs = 0) \<and>
     (0 < LW \<longrightarrow> rw = A + rs + S - lw \<and> A + rs + S \<le> lw \<and> lw \<le> 1073741824 \<and> Q = 0 \<and> ws = 0 \<and> rs \<le> P) \<and>
     (0 < LS \<longrightarrow> rw = A + rs + S \<and> ws + Q = (if A + rs + S = 0 then 1 else 0) \<and> rs \<le> P) \<and>
     (0 < UL \<longrightarrow> P = rs + pd)"

text \<open>The invariant of a lock and the threads using it.\<close>

definition good :: "RWMutex \<Rightarrow> thread list \<Rightarrow> bool" where
  "good s ts \<longleftrightarrow>
     (\<forall>x\<in>set ts. ok x) \<and>
     ainv (int (length ts)) (w s) (sint (readerCount s)) (sint (readerWait s))
       (int (readerSem s)) (int (writerSem s))
       (cnt R_Out ts) (cnt R_Active ts) (cnt R_Queued ts) (cnt R_Leaving ts) (cnt R_Waking ts) (cnt W_Entering ts)
       (cnt W_Announced ts) (cnt W_Parked ts) (cnt W_Inside ts) (cnt W_Leaving ts) (tot lwv ts) (tot pend ts)"

text \<open>Where a thread is after a step with the given outcome.\<close>

definition nxt :: "pc \<Rightarrow> outcome \<Rightarrow> thread" where
  "nxt pc out = (case out of Next pc' \<Rightarrow> Running pc' | Return v \<Rightarrow> after (op_of pc) v
                 | Fatal m \<Rightarrow> Running pc)"

definition sys_inv :: "system \<Rightarrow> bool" where
  "sys_inv \<sigma> \<longleftrightarrow> \<not> dead \<sigma> \<and> good (lock \<sigma>) (threads \<sigma>)"

text \<open>A thread is inside a write, or a read, critical section.\<close>

definition holds_write :: "system \<Rightarrow> nat \<Rightarrow> bool" where
  "holds_write \<sigma> t \<longleftrightarrow> t < length (threads \<sigma>) \<and> threads \<sigma> ! t = Writing"

definition holds_read :: "system \<Rightarrow> nat \<Rightarrow> bool" where
  "holds_read \<sigma> t \<longleftrightarrow> t < length (threads \<sigma>) \<and> threads \<sigma> ! t = Reading"


text \<open>
  The state after thread 0 of two has called \<open>Lock\<close> on the zero value and the call
  has returned.
\<close>

definition writer_inside :: system where
  "writer_inside =
     \<lparr>lock = \<lparr>w = True, writerSem = 0, readerSem = 0, readerCount = - rwmutexMaxReaders,
              readerWait = 0\<rparr>,
      threads = [Writing, Idle], dead = False\<rparr>"






















section \<open>Properties of a single call\<close>

text \<open>
  C3: for every call to \<open>RUnlock\<close>, whatever the other threads do between its steps
  (\<open>e1\<close>, \<open>e2\<close>, \<open>e3\<close>): it atomically decrements \<open>readerCount\<close>; when the result
  is non-negative the call returns having done nothing else; when it is negative and
  not one of the two misuse values the call decrements \<open>readerWait\<close>, and it releases
  one permit on \<open>writerSem\<close> exactly when that decrement gives zero.
\<close>

theorem RUnlock_run:
  "run (e1 # e2 # e3 # es) RUnlock_Add s =
     (let s0 = e1 s; r = readerCount s0 + (- 1); s1 = s0\<lparr>readerCount := r\<rparr> in
      if 0 \<le> sint r then (Returned Unit, s1, [AtomicAdd ReaderCount (- 1) r])
      else if r + 1 = 0 \<or> r + 1 = - rwmutexMaxReaders
      then (Fataled ''sync: RUnlock of unlocked RWMutex'', s1, [AtomicAdd ReaderCount (- 1) r])
      else
        let s1' = e2 s1; v = readerWait s1' + (- 1); s2 = s1'\<lparr>readerWait := v\<rparr> in
        if v = 0
        then (let s2' = e3 s2 in
              (Returned Unit, s2'\<lparr>writerSem := writerSem s2' + 1\<rparr>,
               [AtomicAdd ReaderCount (- 1) r, AtomicAdd ReaderWait (- 1) v, SemRelease WriterSem]))
        else (Returned Unit, s2, [AtomicAdd ReaderCount (- 1) r, AtomicAdd ReaderWait (- 1) v]))"
  by (simp add: Let_def not_less)

text \<open>
  C6: \<open>TryLock\<close> never blocks and returns a boolean, whatever the other threads do
  between its steps: when \<open>rw.w.TryLock()\<close> fails it returns \<open>false\<close> at once; otherwise
  it makes one compare-and-swap of \<open>readerCount\<close> from \<open>0\<close> to \<open>- rwmutexMaxReaders\<close>,
  returns \<open>true\<close> when it commits, and otherwise releases \<open>w\<close> and returns \<open>false\<close>.
  Running alone, a failed \<open>TryLock\<close> leaves every field of the lock as it found it.
\<close>

theorem TryLock_run:
  "run (e1 # e2 # e3 # es) TryLock_W s =
     (let s0 = e1 s in
      if w s0 then (Returned (Bool False), s0, [MutexTryLock False])
      else
        let s1 = e2 (s0\<lparr>w := True\<rparr>) in
        if readerCount s1 = 0
        then (Returned (Bool True), s1\<lparr>readerCount := - rwmutexMaxReaders\<rparr>,
              [MutexTryLock True, AtomicCAS ReaderCount 0 (- rwmutexMaxReaders) True])
        else
          let s2 = e3 s1 in
          (Returned (Bool False), s2\<lparr>w := False\<rparr>,
           [MutexTryLock True, AtomicCAS ReaderCount 0 (- rwmutexMaxReaders) False, MutexUnlock])) \<and>
   solo 3 M_TryLock s =
     (if w s then (Returned (Bool False), s, [MutexTryLock False])
      else if readerCount s = 0
      then (Returned (Bool True), s\<lparr>w := True, readerCount := - rwmutexMaxReaders\<rparr>,
            [MutexTryLock True, AtomicCAS ReaderCount 0 (- rwmutexMaxReaders) True])
      else (Returned (Bool False), s,
            [MutexTryLock True, AtomicCAS ReaderCount 0 (- rwmutexMaxReaders) False, MutexUnlock]))"
  by (simp add: solo_def numeral_3_eq_3 Let_def)






lemma max_num: "rwmutexMaxReaders = 1073741824"
  by (simp add: rwmutexMaxReaders_def)



lemma sint_max [simp]: "sint rwmutexMaxReaders = 1073741824"
  by (simp add: rwmutexMaxReaders_def)

lemma sint_neg_max [simp]: "sint (- rwmutexMaxReaders) = - 1073741824"
  by (simp add: rwmutexMaxReaders_def)

lemma sint_add_exact:
  fixes x y :: int32
  assumes "- 2147483648 \<le> sint x + sint y" "sint x + sint y < 2147483648"
  shows "sint (x + y) = sint x + sint y"
  using assms by (simp add: sint_word_add signed_take_bit_int_eq_self)

lemma sint_eq_iff: "(x = y) = (sint x = sint (y::int32))"
  by (auto intro: signed_word_eqI)

text \<open>
  C9: \<open>rwmutexMaxReaders\<close> is \<open>2 ^ 30\<close>, and the 32-bit additions on \<open>readerCount\<close> are
  exact: with between \<open>0\<close> and \<open>2 ^ 30\<close> readers registered the subtraction in \<open>Lock\<close>
  gives the integer \<open>readerCount - 2 ^ 30\<close> (and adding \<open>rwmutexMaxReaders\<close> back gives
  the reader count), and with the bias of one writer on top (\<open>readerCount\<close> between
  \<open>- 2 ^ 30\<close> and \<open>0\<close>) the addition in \<open>Unlock\<close> gives \<open>readerCount + 2 ^ 30\<close>; both
  results lie in the range of \<open>int32\<close>.
\<close>

theorem bias_arithmetic_exact:
  "rwmutexMaxReaders = 2 ^ 30 \<and> sint rwmutexMaxReaders = 2 ^ 30 \<and>
   (0 \<le> sint (readerCount s) \<and> sint (readerCount s) \<le> 2 ^ 30 \<longrightarrow>
      (\<exists>out s'. step Lock_Add s =
                   Some (AtomicAdd ReaderCount (- rwmutexMaxReaders) (readerCount s'), out, s') \<and>
         sint (readerCount s') = sint (readerCount s) - 2 ^ 30 \<and>
         - (2 ^ 31) \<le> sint (readerCount s) - 2 ^ 30 \<and> sint (readerCount s) - 2 ^ 30 < 2 ^ 31 \<and>
         sint (readerCount s' + rwmutexMaxReaders) = sint (readerCount s))) \<and>
   (- (2 ^ 30) \<le> sint (readerCount s) \<and> sint (readerCount s) \<le> 0 \<longrightarrow>
      (\<exists>out s'. step Unlock_Add s =
                   Some (AtomicAdd ReaderCount rwmutexMaxReaders (readerCount s'), out, s') \<and>
         sint (readerCount s') = sint (readerCount s) + 2 ^ 30 \<and>
         - (2 ^ 31) \<le> sint (readerCount s) + 2 ^ 30 \<and> sint (readerCount s) + 2 ^ 30 < 2 ^ 31))"
proof (intro conjI impI)
  show "rwmutexMaxReaders = 2 ^ 30" by (simp add: rwmutexMaxReaders_def)
  show "sint rwmutexMaxReaders = 2 ^ 30" by simp
next
  assume h: "0 \<le> sint (readerCount s) \<and> sint (readerCount s) \<le> 2 ^ 30"
  then have "sint (readerCount s + (- rwmutexMaxReaders)) = sint (readerCount s) - 2 ^ 30"
    using sint_add_exact [of "readerCount s" "- rwmutexMaxReaders"] by simp
  with h show "\<exists>out s'. step Lock_Add s =
                   Some (AtomicAdd ReaderCount (- rwmutexMaxReaders) (readerCount s'), out, s') \<and>
         sint (readerCount s') = sint (readerCount s) - 2 ^ 30 \<and>
         - (2 ^ 31) \<le> sint (readerCount s) - 2 ^ 30 \<and> sint (readerCount s) - 2 ^ 30 < 2 ^ 31 \<and>
         sint (readerCount s' + rwmutexMaxReaders) = sint (readerCount s)"
    by (simp add: Let_def)
next
  assume h: "- (2 ^ 30) \<le> sint (readerCount s) \<and> sint (readerCount s) \<le> 0"
  then have "sint (readerCount s + rwmutexMaxReaders) = sint (readerCount s) + 2 ^ 30"
    using sint_add_exact [of "readerCount s" rwmutexMaxReaders] by simp
  with h show "\<exists>out s'. step Unlock_Add s =
                   Some (AtomicAdd ReaderCount rwmutexMaxReaders (readerCount s'), out, s') \<and>
         sint (readerCount s') = sint (readerCount s) + 2 ^ 30 \<and>
         - (2 ^ 31) \<le> sint (readerCount s) + 2 ^ 30 \<and> sint (readerCount s) + 2 ^ 30 < 2 ^ 31"
    by (simp add: Let_def)
qed

theorem bias_arithmetic_exact_witness:
  "(\<exists>out s'. step Lock_Add zero_RWMutex =
                Some (AtomicAdd ReaderCount (- rwmutexMaxReaders) (readerCount s'), out, s') \<and>
      sint (readerCount s') = - (2 ^ 30)) \<and>
   (\<exists>out s'. step Unlock_Add (lock writer_inside) =
                Some (AtomicAdd ReaderCount rwmutexMaxReaders (readerCount s'), out, s') \<and>
      sint (readerCount s') = 0)"
  using bias_arithmetic_exact [of zero_RWMutex] bias_arithmetic_exact [of "lock writer_inside"]
  by (auto simp add: zero_RWMutex_def writer_inside_def Let_def)


lemma run_Cons_Next:
  "step pc (e s) = Some (a, Next pc', s1) \<Longrightarrow> run (e # es) pc s = (res, s', tr) \<Longrightarrow>
   \<exists>tr'. run es pc' s1 = (res, s', tr') \<and> tr = a # tr'"
  by (cases "run es pc' s1") auto

lemma run_Cons_Return:
  "step pc (e s) = Some (a, Return v, s1) \<Longrightarrow> run (e # es) pc s = (res, s', tr) \<Longrightarrow>
   res = Returned v \<and> s' = s1 \<and> tr = [a]"
  by auto

lemma run_Cons_Fatal:
  "step pc (e s) = Some (a, Fatal m, s1) \<Longrightarrow> run (e # es) pc s = (res, s', tr) \<Longrightarrow>
   res = Fataled m \<and> s' = s1 \<and> tr = [a]"
  by auto

lemma run_RUnlockSlow_Sem_not_fatal: "run es RUnlockSlow_Sem s \<noteq> (Fataled m, s', tr)"
  by (cases es) simp_all

lemma run_RUnlockSlow_Wait_not_fatal: "run es RUnlockSlow_Wait s \<noteq> (Fataled m, s', tr)"
proof (cases es)
  case Nil
  then show ?thesis by simp
next
  case (Cons e es')
  let ?s1 = "(e s)\<lparr>readerWait := readerWait (e s) + (- 1)\<rparr>"
  show ?thesis
  proof
    assume f: "run es RUnlockSlow_Wait s = (Fataled m, s', tr)"
    show False
    proof (cases "readerWait (e s) + (- 1) = 0")
      case True
      then have "step RUnlockSlow_Wait (e s) =
        Some (AtomicAdd ReaderWait (- 1) (readerWait (e s) + (- 1)), Next RUnlockSlow_Sem, ?s1)"
        by (simp add: Let_def)
      from run_Cons_Next [OF this f [unfolded Cons]] run_RUnlockSlow_Sem_not_fatal
      show False by blast
    next
      case False
      then have "step RUnlockSlow_Wait (e s) =
        Some (AtomicAdd ReaderWait (- 1) (readerWait (e s) + (- 1)), Return Unit, ?s1)"
        by (simp add: Let_def)
      from run_Cons_Return [OF this f [unfolded Cons]] show False by simp
    qed
  qed
qed

lemma run_Unlock_Loop_not_fatal: "run es (Unlock_Loop r i) s \<noteq> (Fataled m, s', tr)"
proof (induction es arbitrary: i s tr)
  case Nil
  show ?case by simp
next
  case (Cons e es)
  show ?case
  proof
    assume f: "run (e # es) (Unlock_Loop r i) s = (Fataled m, s', tr)"
    show False
    proof (cases "i < sint r")
      case False
      then have "step (Unlock_Loop r i) (e s) = Some (MutexUnlock, Return Unit, (e s)\<lparr>w := False\<rparr>)"
        by simp
      from run_Cons_Return [OF this f] show False by simp
    next
      case True
      then have "step (Unlock_Loop r i) (e s) =
        Some (SemRelease ReaderSem, Next (Unlock_Loop r (i + 1)),
              (e s)\<lparr>readerSem := readerSem (e s) + 1\<rparr>)"
        by simp
      from run_Cons_Next [OF this f] Cons.IH show False by blast
    qed
  qed
qed

text \<open>
  C10: on both misuse paths the counter has already been changed when \<open>fatal\<close> is
  called, and it is not restored. A call of \<open>RUnlock\<close> that dies found the lock as
  \<open>e s\<close> and leaves it with \<open>readerCount\<close> decremented by one and nothing else changed;
  a call of \<open>Unlock\<close> that dies leaves it with \<open>readerCount\<close> incremented by
  \<open>rwmutexMaxReaders\<close>; in both cases the only operation of the call is that addition
  and the lock is not as it was found.
\<close>

theorem fatal_keeps_mutation:
  "(run (e # es) RUnlock_Add s = (Fataled m, s', tr) \<longrightarrow>
      s' = (e s)\<lparr>readerCount := readerCount (e s) + (- 1)\<rparr> \<and>
      sint (readerCount s') = sint (readerCount (e s)) - 1 \<and> s' \<noteq> e s \<and>
      tr = [AtomicAdd ReaderCount (- 1) (readerCount s')]) \<and>
   (run (e # es) Unlock_Add s = (Fataled m, s', tr) \<longrightarrow>
      s' = (e s)\<lparr>readerCount := readerCount (e s) + rwmutexMaxReaders\<rparr> \<and>
      sint (readerCount s') = sint (readerCount (e s)) + 2 ^ 30 \<and> s' \<noteq> e s \<and>
      tr = [AtomicAdd ReaderCount rwmutexMaxReaders (readerCount s')])"
proof (rule conjI; rule impI)
  assume f: "run (e # es) RUnlock_Add s = (Fataled m, s', tr)"
  let ?r = "readerCount (e s) + (- 1)"
  have st: "step RUnlock_Add (e s) =
      Some (AtomicAdd ReaderCount (- 1) ?r,
            if sint ?r < 0
            then (if ?r + 1 = 0 \<or> ?r + 1 = - rwmutexMaxReaders
                  then Fatal ''sync: RUnlock of unlocked RWMutex''
                  else Next RUnlockSlow_Wait)
            else Return Unit,
            (e s)\<lparr>readerCount := ?r\<rparr>)"
    by (simp add: Let_def)
  have c: "sint ?r < 0 \<and> (?r + 1 = 0 \<or> ?r + 1 = - rwmutexMaxReaders)"
  proof (rule ccontr)
    assume n: "\<not> ?thesis"
    show False
    proof (cases "sint ?r < 0")
      case False
      with st have "step RUnlock_Add (e s) =
        Some (AtomicAdd ReaderCount (- 1) ?r, Return Unit, (e s)\<lparr>readerCount := ?r\<rparr>)"
        by simp
      from run_Cons_Return [OF this f] show False by simp
    next
      case True
      with n st have "step RUnlock_Add (e s) =
        Some (AtomicAdd ReaderCount (- 1) ?r, Next RUnlockSlow_Wait, (e s)\<lparr>readerCount := ?r\<rparr>)"
        by simp
      from run_Cons_Next [OF this f] run_RUnlockSlow_Wait_not_fatal show False by blast
    qed
  qed
  then have z: "readerCount (e s) = 0 \<or> readerCount (e s) = - rwmutexMaxReaders" by simp
  from c st have "step RUnlock_Add (e s) =
      Some (AtomicAdd ReaderCount (- 1) ?r, Fatal ''sync: RUnlock of unlocked RWMutex'',
            (e s)\<lparr>readerCount := ?r\<rparr>)"
    by simp
  from run_Cons_Fatal [OF this f]
  have s': "s' = (e s)\<lparr>readerCount := ?r\<rparr>" and tr: "tr = [AtomicAdd ReaderCount (- 1) ?r]"
    by simp_all
  have v: "sint ?r = sint (readerCount (e s)) - 1"
    using z by (auto simp: max_num)
  have ne: "?r \<noteq> readerCount (e s)" by simp
  show "s' = (e s)\<lparr>readerCount := ?r\<rparr> \<and>
      sint (readerCount s') = sint (readerCount (e s)) - 1 \<and> s' \<noteq> e s \<and>
      tr = [AtomicAdd ReaderCount (- 1) (readerCount s')]"
  proof (intro conjI)
    show "s' = (e s)\<lparr>readerCount := ?r\<rparr>" by (rule s')
    show "sint (readerCount s') = sint (readerCount (e s)) - 1" using v by (simp add: s')
    show "s' \<noteq> e s"
    proof
      assume "s' = e s"
      then have "readerCount s' = readerCount (e s)" by simp
      with ne show False by (simp add: s')
    qed
    show "tr = [AtomicAdd ReaderCount (- 1) (readerCount s')]" by (simp add: s' tr)
  qed
next
  assume f: "run (e # es) Unlock_Add s = (Fataled m, s', tr)"
  let ?r = "readerCount (e s) + rwmutexMaxReaders"
  have st: "step Unlock_Add (e s) =
      Some (AtomicAdd ReaderCount rwmutexMaxReaders ?r,
            if sint rwmutexMaxReaders \<le> sint ?r
            then Fatal ''sync: Unlock of unlocked RWMutex''
            else Next (Unlock_Loop ?r 0),
            (e s)\<lparr>readerCount := ?r\<rparr>)"
    by (simp add: Let_def)
  have c: "sint rwmutexMaxReaders \<le> sint ?r"
  proof (rule ccontr)
    assume n: "\<not> ?thesis"
    with st have "step Unlock_Add (e s) =
      Some (AtomicAdd ReaderCount rwmutexMaxReaders ?r, Next (Unlock_Loop ?r 0),
            (e s)\<lparr>readerCount := ?r\<rparr>)"
      by simp
    from run_Cons_Next [OF this f] run_Unlock_Loop_not_fatal show False by blast
  qed
  from c st have "step Unlock_Add (e s) =
      Some (AtomicAdd ReaderCount rwmutexMaxReaders ?r, Fatal ''sync: Unlock of unlocked RWMutex'',
            (e s)\<lparr>readerCount := ?r\<rparr>)"
    by simp
  from run_Cons_Fatal [OF this f]
  have s': "s' = (e s)\<lparr>readerCount := ?r\<rparr>" and tr: "tr = [AtomicAdd ReaderCount rwmutexMaxReaders ?r]"
    by simp_all
  have b: "sint ?r < 2147483648" using sint_lt [of ?r] by simp
  have "sint (?r + (- rwmutexMaxReaders)) = sint ?r + sint (- rwmutexMaxReaders)"
    using c b by (intro sint_add_exact) simp_all
  then have v: "sint ?r = sint (readerCount (e s)) + 2 ^ 30" by simp
  have ne: "?r \<noteq> readerCount (e s)" by (simp add: max_num)
  show "s' = (e s)\<lparr>readerCount := ?r\<rparr> \<and>
      sint (readerCount s') = sint (readerCount (e s)) + 2 ^ 30 \<and> s' \<noteq> e s \<and>
      tr = [AtomicAdd ReaderCount rwmutexMaxReaders (readerCount s')]"
  proof (intro conjI)
    show "s' = (e s)\<lparr>readerCount := ?r\<rparr>" by (rule s')
    show "sint (readerCount s') = sint (readerCount (e s)) + 2 ^ 30" using v by (simp add: s')
    show "s' \<noteq> e s"
    proof
      assume "s' = e s"
      then have "readerCount s' = readerCount (e s)" by simp
      with ne show False by (simp add: s')
    qed
    show "tr = [AtomicAdd ReaderCount rwmutexMaxReaders (readerCount s')]" by (simp add: s' tr)
  qed
qed

theorem fatal_keeps_mutation_witness:
  "run [id] RUnlock_Add zero_RWMutex =
     (Fataled ''sync: RUnlock of unlocked RWMutex'', zero_RWMutex\<lparr>readerCount := - 1\<rparr>,
      [AtomicAdd ReaderCount (- 1) (- 1)]) \<and>
   zero_RWMutex\<lparr>readerCount := - 1\<rparr> \<noteq> zero_RWMutex \<and>
   run [id] Unlock_Add zero_RWMutex =
     (Fataled ''sync: Unlock of unlocked RWMutex'', zero_RWMutex\<lparr>readerCount := rwmutexMaxReaders\<rparr>,
      [AtomicAdd ReaderCount rwmutexMaxReaders rwmutexMaxReaders]) \<and>
   zero_RWMutex\<lparr>readerCount := rwmutexMaxReaders\<rparr> \<noteq> zero_RWMutex"
proof -
  have r1: "run [id] RUnlock_Add zero_RWMutex =
     (Fataled ''sync: RUnlock of unlocked RWMutex'', zero_RWMutex\<lparr>readerCount := - 1\<rparr>,
      [AtomicAdd ReaderCount (- 1) (- 1)])"
    by (simp add: zero_RWMutex_def Let_def)
  have r2: "run [id] Unlock_Add zero_RWMutex =
     (Fataled ''sync: Unlock of unlocked RWMutex'', zero_RWMutex\<lparr>readerCount := rwmutexMaxReaders\<rparr>,
      [AtomicAdd ReaderCount rwmutexMaxReaders rwmutexMaxReaders])"
    by (simp add: zero_RWMutex_def Let_def)
  note t1 = fatal_keeps_mutation [of id "[]" zero_RWMutex, THEN conjunct1, rule_format, OF r1]
  note t2 = fatal_keeps_mutation [of id "[]" zero_RWMutex, THEN conjunct2, rule_format, OF r2]
  have n1: "zero_RWMutex\<lparr>readerCount := - 1\<rparr> \<noteq> zero_RWMutex"
    using t1 [THEN conjunct2, THEN conjunct2, THEN conjunct1] by simp
  have n2: "zero_RWMutex\<lparr>readerCount := rwmutexMaxReaders\<rparr> \<noteq> zero_RWMutex"
    using t2 [THEN conjunct2, THEN conjunct2, THEN conjunct1] by simp
  from r1 n1 r2 n2 show ?thesis by (intro conjI)
qed








section \<open>The invariant holds in every reachable state\<close>

lemma cnt_Nil [simp]: "cnt k [] = 0" by (simp add: cnt_def)

lemma cnt_Cons [simp]: "cnt k (x # xs) = (if role_of x = k then 1 else 0) + cnt k xs" by (simp add: cnt_def)

lemma cnt_nonneg [simp]: "0 \<le> cnt k ts" by (simp add: cnt_def)

lemma cnt_update:
  "t < length ts \<Longrightarrow>
   cnt k (ts[t := y]) = cnt k ts - (if role_of (ts ! t) = k then 1 else 0) + (if role_of y = k then 1 else 0)"
proof (induction ts arbitrary: t)
  case Nil then show ?case by simp
next
  case (Cons x xs)
  then show ?case by (cases t) auto
qed

lemma cnt_mem: "x \<in> set ts \<Longrightarrow> 1 \<le> cnt (role_of x) ts"
  by (induction ts) (auto simp: add_increasing)

lemma cnt_total:
  "cnt R_Out ts + cnt R_Active ts + cnt R_Queued ts + cnt R_Leaving ts + cnt R_Waking ts + cnt W_Entering ts
   + cnt W_Announced ts + cnt W_Parked ts + cnt W_Inside ts + cnt W_Leaving ts = int (length ts)"
proof (induction ts)
  case Nil then show ?case by simp
next
  case (Cons x xs)
  then show ?case by (cases "role_of x") simp_all
qed

lemma cnt_replicate_Idle: "cnt k (replicate n Idle) = (if k = R_Out then int n else 0)"
  by (induction n) auto

lemma tot_update:
  "t < length ts \<Longrightarrow> tot f (ts[t := y]) = tot f ts - f (ts ! t) + f y"
proof (induction ts arbitrary: t)
  case Nil then show ?case by simp
next
  case (Cons x xs)
  then show ?case by (cases t) (auto simp: tot_def)
qed

lemma tot_zero: "(\<And>x. x \<in> set ts \<Longrightarrow> f x = 0) \<Longrightarrow> tot f ts = 0"
  by (induction ts) (auto simp: tot_def)

lemma cnt_zero_D: "cnt k ts = 0 \<Longrightarrow> x \<in> set ts \<Longrightarrow> role_of x \<noteq> k"
  using cnt_mem [of x ts] by auto

lemma tot_single:
  assumes "cnt k ts \<le> 1" "t < length ts" "role_of (ts ! t) = k"
    and z: "\<And>x. role_of x \<noteq> k \<Longrightarrow> f x = 0"
  shows "tot f ts = f (ts ! t)"
proof -
  define y where "y = Idle"
  define us where "us = ts[t := Running RLock_Sem]"
  have kp: "role_of (Running RLock_Sem) = R_Queued" by simp
  show ?thesis
  proof (cases "k = R_Queued")
    case False
    have "cnt k us = cnt k ts - 1"
      using assms(2,3) False by (simp add: us_def cnt_update)
    with assms(1) have "cnt k us = 0"
      using cnt_nonneg [of k us] by linarith
    then have "tot f us = 0"
      by (intro tot_zero z) (auto dest: cnt_zero_D)
    moreover have "tot f us = tot f ts - f (ts ! t) + f (Running RLock_Sem)"
      using assms(2) by (simp add: us_def tot_update)
    moreover have "f (Running RLock_Sem) = 0" using False by (intro z) simp
    ultimately show ?thesis by simp
  next
    case True
    define vs where "vs = ts[t := Idle]"
    have "cnt k vs = cnt k ts - 1"
      using assms(2,3) True by (simp add: vs_def cnt_update)
    with assms(1) have "cnt k vs = 0"
      using cnt_nonneg [of k vs] by linarith
    then have "tot f vs = 0"
      by (intro tot_zero z) (auto dest: cnt_zero_D)
    moreover have "tot f vs = tot f ts - f (ts ! t) + f Idle"
      using assms(2) by (simp add: vs_def tot_update)
    moreover have "f Idle = 0" using True by (intro z) simp
    ultimately show ?thesis by simp
  qed
qed

lemma lwv_other: "role_of x \<noteq> W_Announced \<Longrightarrow> lwv x = 0"
  by (auto simp: lwv_def split: thread.splits pc.splits)

lemma pend_other: "role_of x \<noteq> W_Leaving \<Longrightarrow> pend x = 0"
  by (auto simp: pend_def split: thread.splits pc.splits)

lemma a_bounds:
  assumes "ainv n wb rc rw rs ws N A P S Q H0 LW LS Wr UL lw pd"
  shows "- 1073741824 \<le> rc \<and> rc \<le> 1073741824 \<and> - 1073741824 \<le> rw \<and> rw \<le> 1073741824"
  using assms unfolding ainv_def by (smt (z3))


lemma a_RLock_Add_neg:
  assumes "ainv n wb rc rw rs ws N A P S Q H0 LW LS Wr UL lw pd" "1 \<le> N" "rc + 1 < 0"
  shows "ainv n wb (rc + 1) rw rs ws (N - 1) A (P + 1) S Q H0 LW LS Wr UL lw pd"
  using assms unfolding ainv_def by (smt (z3))

lemma a_RLock_Add_pos:
  assumes "ainv n wb rc rw rs ws N A P S Q H0 LW LS Wr UL lw pd" "1 \<le> N" "\<not> rc + 1 < 0"
  shows "ainv n wb (rc + 1) rw rs ws (N - 1) (A + 1) P S Q H0 LW LS Wr UL lw pd"
  using assms unfolding ainv_def by (smt (z3))

lemma a_RLock_Sem:
  assumes "ainv n wb rc rw rs ws N A P S Q H0 LW LS Wr UL lw pd" "1 \<le> P" "0 < rs"
  shows "ainv n wb rc rw (rs - 1) ws N (A + 1) (P - 1) S Q H0 LW LS Wr UL lw pd"
  using assms unfolding ainv_def by (smt (z3))

lemma a_TryRLock_CAS:
  assumes "ainv n wb rc rw rs ws N A P S Q H0 LW LS Wr UL lw pd" "1 \<le> N" "0 \<le> rc"
  shows "ainv n wb (rc + 1) rw rs ws (N - 1) (A + 1) P S Q H0 LW LS Wr UL lw pd"
  using assms unfolding ainv_def by (smt (z3))

lemma a_RUnlock_Add_fast:
  assumes "ainv n wb rc rw rs ws N A P S Q H0 LW LS Wr UL lw pd" "1 \<le> A" "\<not> rc - 1 < 0"
  shows "ainv n wb (rc - 1) rw rs ws (N + 1) (A - 1) P S Q H0 LW LS Wr UL lw pd"
  using assms unfolding ainv_def by (smt (z3))

lemma a_RUnlock_Add_slow:
  assumes "ainv n wb rc rw rs ws N A P S Q H0 LW LS Wr UL lw pd" "1 \<le> A" "rc - 1 < 0"
  shows "ainv n wb (rc - 1) rw rs ws N (A - 1) P (S + 1) Q H0 LW LS Wr UL lw pd"
  using assms unfolding ainv_def by (smt (z3))

lemma a_RUnlock_Add_nofatal:
  assumes "ainv n wb rc rw rs ws N A P S Q H0 LW LS Wr UL lw pd" "1 \<le> A"
  shows "rc \<noteq> 0 \<and> rc \<noteq> - 1073741824"
  using assms unfolding ainv_def by (smt (z3))

lemma a_RUnlockSlow_Wait_z:
  assumes "ainv n wb rc rw rs ws N A P S Q H0 LW LS Wr UL lw pd" "1 \<le> S" "rw - 1 = 0"
  shows "ainv n wb rc (rw - 1) rs ws N A P (S - 1) (Q + 1) H0 LW LS Wr UL lw pd"
  using assms unfolding ainv_def by (smt (z3))

lemma a_RUnlockSlow_Wait_nz:
  assumes "ainv n wb rc rw rs ws N A P S Q H0 LW LS Wr UL lw pd" "1 \<le> S" "rw - 1 \<noteq> 0"
  shows "ainv n wb rc (rw - 1) rs ws (N + 1) A P (S - 1) Q H0 LW LS Wr UL lw pd"
  using assms unfolding ainv_def by (smt (z3))

lemma a_RUnlockSlow_Sem:
  assumes "ainv n wb rc rw rs ws N A P S Q H0 LW LS Wr UL lw pd" "1 \<le> Q"
  shows "ainv n wb rc rw rs (ws + 1) (N + 1) A P S (Q - 1) H0 LW LS Wr UL lw pd"
  using assms unfolding ainv_def by (smt (z3))

lemma a_Lock_W:
  assumes "ainv n wb rc rw rs ws N A P S Q H0 LW LS Wr UL lw pd" "1 \<le> N" "\<not> wb"
  shows "ainv n True rc rw rs ws (N - 1) A P S Q (H0 + 1) LW LS Wr UL lw pd"
  using assms unfolding ainv_def by (smt (z3))

lemma a_Lock_Add_z:
  assumes "ainv n wb rc rw rs ws N A P S Q H0 LW LS Wr UL lw pd" "1 \<le> H0" "rc = 0"
  shows "ainv n wb (rc - 1073741824) rw rs ws N A P S Q (H0 - 1) LW LS (Wr + 1) UL lw pd"
  using assms unfolding ainv_def by (smt (z3))

lemma a_Lock_Add_nz:
  assumes "ainv n wb rc rw rs ws N A P S Q H0 LW LS Wr UL lw pd" "1 \<le> H0" "rc \<noteq> 0"
  shows "ainv n wb (rc - 1073741824) rw rs ws N A P S Q (H0 - 1) (LW + 1) LS Wr UL rc pd"
  using assms unfolding ainv_def by (smt (z3))

lemma a_Lock_Wait_nz:
  assumes "ainv n wb rc rw rs ws N A P S Q H0 LW LS Wr UL lw pd" "1 \<le> LW" "rw + lw \<noteq> 0"
  shows "ainv n wb rc (rw + lw) rs ws N A P S Q H0 (LW - 1) (LS + 1) Wr UL lw' pd"
  using assms unfolding ainv_def by (smt (z3))

lemma a_Lock_Wait_z:
  assumes "ainv n wb rc rw rs ws N A P S Q H0 LW LS Wr UL lw pd" "1 \<le> LW" "rw + lw = 0"
  shows "ainv n wb rc (rw + lw) rs ws N A P S Q H0 (LW - 1) LS (Wr + 1) UL lw' pd"
  using assms unfolding ainv_def by (smt (z3))

lemma a_Lock_Wait_bounds:
  assumes "ainv n wb rc rw rs ws N A P S Q H0 LW LS Wr UL lw pd" "1 \<le> LW"
  shows "0 \<le> rw + lw \<and> rw + lw \<le> 1073741824 \<and> 0 \<le> lw \<and> lw \<le> 1073741824"
  using assms unfolding ainv_def by (smt (z3))

lemma a_Lock_Sem:
  assumes "ainv n wb rc rw rs ws N A P S Q H0 LW LS Wr UL lw pd" "1 \<le> LS" "0 < ws"
  shows "ainv n wb rc rw rs (ws - 1) N A P S Q H0 LW (LS - 1) (Wr + 1) UL lw pd"
  using assms unfolding ainv_def by (smt (z3))

lemma a_TryLock_CAS:
  assumes "ainv n wb rc rw rs ws N A P S Q H0 LW LS Wr UL lw pd" "1 \<le> H0" "rc = 0"
  shows "ainv n wb (- 1073741824) rw rs ws N A P S Q (H0 - 1) LW LS (Wr + 1) UL lw pd"
  using assms unfolding ainv_def by (smt (z3))

lemma a_TryLock_Unlock:
  assumes "ainv n wb rc rw rs ws N A P S Q H0 LW LS Wr UL lw pd" "1 \<le> H0"
  shows "ainv n False rc rw rs ws (N + 1) A P S Q (H0 - 1) LW LS Wr UL lw pd"
  using assms unfolding ainv_def by (smt (z3))

lemma a_Unlock_Add:
  assumes "ainv n wb rc rw rs ws N A P S Q H0 LW LS Wr UL lw pd" "1 \<le> Wr"
  shows "ainv n wb (rc + 1073741824) rw rs ws N A P S Q H0 LW LS (Wr - 1) (UL + 1) lw (rc + 1073741824)"
    and "0 \<le> rc + 1073741824" and "rc + 1073741824 < 1073741824"
  using assms unfolding ainv_def by (smt (z3))+

lemma a_Unlock_Loop_it:
  assumes "ainv n wb rc rw rs ws N A P S Q H0 LW LS Wr UL lw pd" "1 \<le> UL" "0 < pd"
  shows "ainv n wb rc rw (rs + 1) ws N A P S Q H0 LW LS Wr UL lw (pd - 1)"
  using assms unfolding ainv_def by (smt (z3))

lemma a_Unlock_Loop_exit:
  assumes "ainv n wb rc rw rs ws N A P S Q H0 LW LS Wr UL lw pd" "1 \<le> UL" "pd = 0"
  shows "ainv n False rc rw rs ws (N + 1) A P S Q H0 LW LS Wr (UL - 1) lw pd'"
  using assms unfolding ainv_def by (smt (z3))

lemma a_init: "0 \<le> n \<Longrightarrow> n \<le> 1073741824 \<Longrightarrow> ainv n False 0 0 0 0 n 0 0 0 0 0 0 0 0 0 0 0"
  unfolding ainv_def by simp

lemma a_mutex:
  assumes "ainv n wb rc rw rs ws N A P S Q H0 LW LS Wr UL lw pd" "1 \<le> Wr"
  shows "Wr = 1 \<and> A = 0 \<and> rs = 0 \<and> rc < 0"
  using assms unfolding ainv_def by (smt (z3))

lemma ok_update: "\<forall>x\<in>set ts. ok x \<Longrightarrow> ok y \<Longrightarrow> \<forall>x\<in>set (ts[t := y]). ok x"
  using set_update_subset_insert [of ts t y] by auto

lemma cnt_nth: "t < length ts \<Longrightarrow> role_of (ts ! t) = k \<Longrightarrow> 1 \<le> cnt k ts"
  using cnt_mem [of "ts ! t" ts] by auto

lemma tot_lwv_zero: "cnt W_Announced ts = 0 \<Longrightarrow> tot lwv ts = 0"
  by (rule tot_zero) (auto dest: cnt_zero_D intro: lwv_other)

lemma tot_pend_zero: "cnt W_Leaving ts = 0 \<Longrightarrow> tot pend ts = 0"
  by (rule tot_zero) (auto dest: cnt_zero_D intro: pend_other)

lemma ainv_eqI:
  "ainv n wb rc rw rs ws N A P S Q H0 LW LS Wr UL lw pd \<Longrightarrow>
   n' = n \<Longrightarrow> wb' = wb \<Longrightarrow> rc' = rc \<Longrightarrow> rw' = rw \<Longrightarrow> rs' = rs \<Longrightarrow> ws' = ws \<Longrightarrow>
   N' = N \<Longrightarrow> A' = A \<Longrightarrow> P' = P \<Longrightarrow> S' = S \<Longrightarrow> Q' = Q \<Longrightarrow> H0' = H0 \<Longrightarrow> LW' = LW \<Longrightarrow>
   LS' = LS \<Longrightarrow> Wr' = Wr \<Longrightarrow> UL' = UL \<Longrightarrow> lw' = lw \<Longrightarrow> pd' = pd \<Longrightarrow>
   ainv n' wb' rc' rw' rs' ws' N' A' P' S' Q' H0' LW' LS' Wr' UL' lw' pd'"
  by simp

lemmas upd = cnt_update tot_update lwv_def pend_def

lemma a_phase:
  assumes "ainv n wb rc rw rs ws N A P S Q H0 LW LS Wr UL lw pd"
  shows "LW \<le> 1" and "UL \<le> 1" and "1 \<le> H0 \<Longrightarrow> LW = 0" and "1 \<le> Wr \<Longrightarrow> UL = 0"
  using assms unfolding ainv_def by (smt (z3))+

lemma kind_entry: "may_call x m \<Longrightarrow> role_of (Running (entry m)) = role_of x"
  by (cases x; cases m) simp_all

lemma lwv_entry: "lwv (Running (entry m)) = 0"
  by (cases m) (simp_all add: lwv_def)

lemma pend_entry: "pend (Running (entry m)) = 0"
  by (cases m) (simp_all add: pend_def)

lemma ok_entry: "ok (Running (entry m))"
  by (cases m) (simp_all add: ok_def)

lemma lwv_may_call: "may_call x m \<Longrightarrow> lwv x = 0"
  by (cases x) (simp_all add: lwv_def)

lemma pend_may_call: "may_call x m \<Longrightarrow> pend x = 0"
  by (cases x) (simp_all add: pend_def)

lemma good_call:
  assumes g: "good s ts" and t: "t < length ts" and mc: "may_call (ts ! t) m"
  shows "good s (ts[t := Running (entry m)])"
proof -
  note a = g [unfolded good_def, THEN conjunct2] and o = g [unfolded good_def, THEN conjunct1]
  show ?thesis
    unfolding good_def
    apply (rule conjI)
     apply (rule ok_update [OF o], rule ok_entry)
    apply (rule ainv_eqI [OF a])
    using t kind_entry [OF mc] lwv_may_call [OF mc] pend_may_call [OF mc]
                     apply (simp_all add: cnt_update tot_update lwv_entry pend_entry)
    done
qed

lemma good_RLock_Add_neg:
  assumes g: "good s ts" and t: "t < length ts" and at: "ts ! t = Running RLock_Add"
    and c: "sint (readerCount s + 1) < 0"
  shows "good (s\<lparr>readerCount := readerCount s + 1\<rparr>) (ts[t := Running RLock_Sem])"
proof -
  note a = g [unfolded good_def, THEN conjunct2] and o = g [unfolded good_def, THEN conjunct1]
  have n1: "1 \<le> cnt R_Out ts" using cnt_nth [OF t, of R_Out] at by simp
  have v: "sint (readerCount s + 1) = sint (readerCount s) + 1"
    using a_bounds [OF a] sint_add_exact [of "readerCount s" 1] by simp
  show ?thesis
    unfolding good_def
    apply (rule conjI)
     apply (rule ok_update [OF o])
     apply (simp add: ok_def)
    apply (rule ainv_eqI [OF a_RLock_Add_neg [OF a n1 c [unfolded v]]])
    using t at v
                     apply (simp_all add: upd)
    done
qed

lemma good_RLock_Add_pos:
  assumes g: "good s ts" and t: "t < length ts" and at: "ts ! t = Running RLock_Add"
    and c: "\<not> sint (readerCount s + 1) < 0"
  shows "good (s\<lparr>readerCount := readerCount s + 1\<rparr>) (ts[t := Reading])"
proof -
  note a = g [unfolded good_def, THEN conjunct2] and o = g [unfolded good_def, THEN conjunct1]
  have n1: "1 \<le> cnt R_Out ts" using cnt_nth [OF t, of R_Out] at by simp
  have v: "sint (readerCount s + 1) = sint (readerCount s) + 1"
    using a_bounds [OF a] sint_add_exact [of "readerCount s" 1] by simp
  show ?thesis
    unfolding good_def
    apply (rule conjI)
     apply (rule ok_update [OF o])
     apply (simp add: ok_def)
    apply (rule ainv_eqI [OF a_RLock_Add_pos [OF a n1 c [unfolded v]]])
    using t at v
                     apply (simp_all add: upd)
    done
qed

lemma good_RLock_Sem:
  assumes g: "good s ts" and t: "t < length ts" and at: "ts ! t = Running RLock_Sem"
    and en: "readerSem s \<noteq> 0"
  shows "good (s\<lparr>readerSem := readerSem s - 1\<rparr>) (ts[t := Reading])"
proof -
  note a = g [unfolded good_def, THEN conjunct2] and o = g [unfolded good_def, THEN conjunct1]
  have n1: "1 \<le> cnt R_Queued ts" using cnt_nth [OF t, of R_Queued] at by simp
  have v: "int (readerSem s - 1) = int (readerSem s) - 1" and p: "0 < int (readerSem s)"
    using en by (simp_all add: of_nat_diff)
  show ?thesis
    unfolding good_def
    apply (rule conjI)
     apply (rule ok_update [OF o])
     apply (simp add: ok_def)
    apply (rule ainv_eqI [OF a_RLock_Sem [OF a n1 p]])
    using t at v
                     apply (simp_all add: upd)
    done
qed

lemma good_TryRLock_Load_neg:
  assumes g: "good s ts" and t: "t < length ts" and at: "ts ! t = Running TryRLock_Load"
  shows "good (s) (ts[t := Idle])"
proof -
  note a = g [unfolded good_def, THEN conjunct2] and o = g [unfolded good_def, THEN conjunct1]
  show ?thesis
    unfolding good_def
    apply (rule conjI)
     apply (rule ok_update [OF o])
     apply (simp add: ok_def)
    apply (rule ainv_eqI [OF a])
    using t at 
                     apply (simp_all add: upd)
    done
qed

lemma good_TryRLock_Load_pos:
  assumes g: "good s ts" and t: "t < length ts" and at: "ts ! t = Running TryRLock_Load"
    and c: "\<not> sint (readerCount s) < 0"
  shows "good (s) (ts[t := Running (TryRLock_CAS (readerCount s))])"
proof -
  note a = g [unfolded good_def, THEN conjunct2] and o = g [unfolded good_def, THEN conjunct1]
  show ?thesis
    unfolding good_def
    apply (rule conjI)
     apply (rule ok_update [OF o])
    using c
     apply (simp add: ok_def)
    apply (rule ainv_eqI [OF a])
    using t at 
                     apply (simp_all add: upd)
    done
qed

lemma good_TryRLock_CAS_fail:
  assumes g: "good s ts" and t: "t < length ts" and at: "ts ! t = Running (TryRLock_CAS c)"
  shows "good (s) (ts[t := Running TryRLock_Load])"
proof -
  note a = g [unfolded good_def, THEN conjunct2] and o = g [unfolded good_def, THEN conjunct1]
  show ?thesis
    unfolding good_def
    apply (rule conjI)
     apply (rule ok_update [OF o])
     apply (simp add: ok_def)
    apply (rule ainv_eqI [OF a])
    using t at 
                     apply (simp_all add: upd)
    done
qed

lemma good_TryRLock_CAS_ok:
  assumes g: "good s ts" and t: "t < length ts" and at: "ts ! t = Running (TryRLock_CAS c)"
    and c: "readerCount s = c"
  shows "good (s\<lparr>readerCount := c + 1\<rparr>) (ts[t := Reading])"
proof -
  note a = g [unfolded good_def, THEN conjunct2] and o = g [unfolded good_def, THEN conjunct1]
  have n1: "1 \<le> cnt R_Out ts" using cnt_nth [OF t, of R_Out] at by simp
  have c0: "0 \<le> sint (readerCount s)"
    using o [rule_format, OF nth_mem [OF t]] at c by (simp add: ok_def)
  have v: "sint (readerCount s + 1) = sint (readerCount s) + 1"
    using a_bounds [OF a] sint_add_exact [of "readerCount s" 1] by simp
  show ?thesis
    unfolding good_def
    apply (rule conjI)
     apply (rule ok_update [OF o])
     apply (simp add: ok_def)
    apply (rule ainv_eqI [OF a_TryRLock_CAS [OF a n1 c0]])
    using t at v c [symmetric]
                     apply (simp_all add: upd)
    done
qed

lemma good_RUnlock_Add_fast:
  assumes g: "good s ts" and t: "t < length ts" and at: "ts ! t = Running RUnlock_Add"
    and c: "\<not> sint (readerCount s + (- 1)) < 0"
  shows "good (s\<lparr>readerCount := readerCount s + (- 1)\<rparr>) (ts[t := Idle])"
proof -
  note a = g [unfolded good_def, THEN conjunct2] and o = g [unfolded good_def, THEN conjunct1]
  have n1: "1 \<le> cnt R_Active ts" using cnt_nth [OF t, of R_Active] at by simp
  have v: "sint (readerCount s + (- 1)) = sint (readerCount s) - 1"
    using a_bounds [OF a] sint_add_exact [of "readerCount s" "- 1"] by simp
  show ?thesis
    unfolding good_def
    apply (rule conjI)
     apply (rule ok_update [OF o])
     apply (simp add: ok_def)
    apply (rule ainv_eqI [OF a_RUnlock_Add_fast [OF a n1 c [unfolded v]]])
    using t at v
                     apply (simp_all add: upd)
    done
qed

lemma good_RUnlock_Add_slow:
  assumes g: "good s ts" and t: "t < length ts" and at: "ts ! t = Running RUnlock_Add"
    and c: "sint (readerCount s + (- 1)) < 0"
  shows "good (s\<lparr>readerCount := readerCount s + (- 1)\<rparr>) (ts[t := Running RUnlockSlow_Wait])"
proof -
  note a = g [unfolded good_def, THEN conjunct2] and o = g [unfolded good_def, THEN conjunct1]
  have n1: "1 \<le> cnt R_Active ts" using cnt_nth [OF t, of R_Active] at by simp
  have v: "sint (readerCount s + (- 1)) = sint (readerCount s) - 1"
    using a_bounds [OF a] sint_add_exact [of "readerCount s" "- 1"] by simp
  show ?thesis
    unfolding good_def
    apply (rule conjI)
     apply (rule ok_update [OF o])
     apply (simp add: ok_def)
    apply (rule ainv_eqI [OF a_RUnlock_Add_slow [OF a n1 c [unfolded v]]])
    using t at v
                     apply (simp_all add: upd)
    done
qed

lemma good_RUnlockSlow_Wait_z:
  assumes g: "good s ts" and t: "t < length ts" and at: "ts ! t = Running RUnlockSlow_Wait"
    and c: "readerWait s + (- 1) = 0"
  shows "good (s\<lparr>readerWait := readerWait s + (- 1)\<rparr>) (ts[t := Running RUnlockSlow_Sem])"
proof -
  note a = g [unfolded good_def, THEN conjunct2] and o = g [unfolded good_def, THEN conjunct1]
  have n1: "1 \<le> cnt R_Leaving ts" using cnt_nth [OF t, of R_Leaving] at by simp
  have v: "sint (readerWait s + (- 1)) = sint (readerWait s) - 1"
    using a_bounds [OF a] sint_add_exact [of "readerWait s" "- 1"] by simp
  have z: "sint (readerWait s) - 1 = 0" using v c by simp
  show ?thesis
    unfolding good_def
    apply (rule conjI)
     apply (rule ok_update [OF o])
     apply (simp add: ok_def)
    apply (rule ainv_eqI [OF a_RUnlockSlow_Wait_z [OF a n1 z]])
    using t at v
                     apply (simp_all add: upd)
    done
qed

lemma good_RUnlockSlow_Wait_nz:
  assumes g: "good s ts" and t: "t < length ts" and at: "ts ! t = Running RUnlockSlow_Wait"
    and c: "readerWait s + (- 1) \<noteq> 0"
  shows "good (s\<lparr>readerWait := readerWait s + (- 1)\<rparr>) (ts[t := Idle])"
proof -
  note a = g [unfolded good_def, THEN conjunct2] and o = g [unfolded good_def, THEN conjunct1]
  have n1: "1 \<le> cnt R_Leaving ts" using cnt_nth [OF t, of R_Leaving] at by simp
  have v: "sint (readerWait s + (- 1)) = sint (readerWait s) - 1"
    using a_bounds [OF a] sint_add_exact [of "readerWait s" "- 1"] by simp
  have z: "sint (readerWait s) - 1 \<noteq> 0"
    using v c sint_eq_iff [of "readerWait s + (- 1)" 0] by simp
  show ?thesis
    unfolding good_def
    apply (rule conjI)
     apply (rule ok_update [OF o])
     apply (simp add: ok_def)
    apply (rule ainv_eqI [OF a_RUnlockSlow_Wait_nz [OF a n1 z]])
    using t at v
                     apply (simp_all add: upd)
    done
qed

lemma good_RUnlockSlow_Sem:
  assumes g: "good s ts" and t: "t < length ts" and at: "ts ! t = Running RUnlockSlow_Sem"
  shows "good (s\<lparr>writerSem := writerSem s + 1\<rparr>) (ts[t := Idle])"
proof -
  note a = g [unfolded good_def, THEN conjunct2] and o = g [unfolded good_def, THEN conjunct1]
  have n1: "1 \<le> cnt R_Waking ts" using cnt_nth [OF t, of R_Waking] at by simp
  show ?thesis
    unfolding good_def
    apply (rule conjI)
     apply (rule ok_update [OF o])
     apply (simp add: ok_def)
    apply (rule ainv_eqI [OF a_RUnlockSlow_Sem [OF a n1]])
    using t at 
                     apply (simp_all add: upd)
    done
qed

lemma good_Lock_W:
  assumes g: "good s ts" and t: "t < length ts" and at: "ts ! t = Running Lock_W"
    and en: "\<not> w s"
  shows "good (s\<lparr>w := True\<rparr>) (ts[t := Running Lock_Add])"
proof -
  note a = g [unfolded good_def, THEN conjunct2] and o = g [unfolded good_def, THEN conjunct1]
  have n1: "1 \<le> cnt R_Out ts" using cnt_nth [OF t, of R_Out] at by simp
  show ?thesis
    unfolding good_def
    apply (rule conjI)
     apply (rule ok_update [OF o])
     apply (simp add: ok_def)
    apply (rule ainv_eqI [OF a_Lock_W [OF a n1 en]])
    using t at 
                     apply (simp_all add: upd)
    done
qed

lemma good_TryLock_W_fail:
  assumes g: "good s ts" and t: "t < length ts" and at: "ts ! t = Running TryLock_W"
  shows "good (s) (ts[t := Idle])"
proof -
  note a = g [unfolded good_def, THEN conjunct2] and o = g [unfolded good_def, THEN conjunct1]
  show ?thesis
    unfolding good_def
    apply (rule conjI)
     apply (rule ok_update [OF o])
     apply (simp add: ok_def)
    apply (rule ainv_eqI [OF a])
    using t at 
                     apply (simp_all add: upd)
    done
qed

lemma good_TryLock_W_ok:
  assumes g: "good s ts" and t: "t < length ts" and at: "ts ! t = Running TryLock_W"
    and en: "\<not> w s"
  shows "good (s\<lparr>w := True\<rparr>) (ts[t := Running TryLock_CAS])"
proof -
  note a = g [unfolded good_def, THEN conjunct2] and o = g [unfolded good_def, THEN conjunct1]
  have n1: "1 \<le> cnt R_Out ts" using cnt_nth [OF t, of R_Out] at by simp
  show ?thesis
    unfolding good_def
    apply (rule conjI)
     apply (rule ok_update [OF o])
     apply (simp add: ok_def)
    apply (rule ainv_eqI [OF a_Lock_W [OF a n1 en]])
    using t at 
                     apply (simp_all add: upd)
    done
qed

lemma good_Lock_Add_z:
  assumes g: "good s ts" and t: "t < length ts" and at: "ts ! t = Running Lock_Add"
    and c: "readerCount s = 0"
  shows "good (s\<lparr>readerCount := readerCount s + (- rwmutexMaxReaders)\<rparr>) (ts[t := Writing])"
proof -
  note a = g [unfolded good_def, THEN conjunct2] and o = g [unfolded good_def, THEN conjunct1]
  have n1: "1 \<le> cnt W_Entering ts" using cnt_nth [OF t, of W_Entering] at by simp
  have v: "sint (readerCount s + (- rwmutexMaxReaders)) = sint (readerCount s) - 1073741824"
    using a_bounds [OF a] sint_add_exact [of "readerCount s" "- rwmutexMaxReaders"] by simp
  have r: "readerCount s + (- rwmutexMaxReaders) + rwmutexMaxReaders = readerCount s" by simp
  have l0: "tot lwv ts = 0" using a_phase(3) [OF a n1] by (rule tot_lwv_zero)
  have z: "sint (readerCount s) = 0" using c by simp
  show ?thesis
    unfolding good_def
    apply (rule conjI)
     apply (rule ok_update [OF o])
     apply (simp add: ok_def)
    apply (rule ainv_eqI [OF a_Lock_Add_z [OF a n1 z]])
    using t at v
                     apply (simp_all add: upd)
    done
qed

lemma good_Lock_Add_nz:
  assumes g: "good s ts" and t: "t < length ts" and at: "ts ! t = Running Lock_Add"
    and c: "readerCount s \<noteq> 0"
  shows "good (s\<lparr>readerCount := readerCount s + (- rwmutexMaxReaders)\<rparr>) (ts[t := Running (Lock_Wait (readerCount s))])"
proof -
  note a = g [unfolded good_def, THEN conjunct2] and o = g [unfolded good_def, THEN conjunct1]
  have n1: "1 \<le> cnt W_Entering ts" using cnt_nth [OF t, of W_Entering] at by simp
  have v: "sint (readerCount s + (- rwmutexMaxReaders)) = sint (readerCount s) - 1073741824"
    using a_bounds [OF a] sint_add_exact [of "readerCount s" "- rwmutexMaxReaders"] by simp
  have r: "readerCount s + (- rwmutexMaxReaders) + rwmutexMaxReaders = readerCount s" by simp
  have l0: "tot lwv ts = 0" using a_phase(3) [OF a n1] by (rule tot_lwv_zero)
  have z: "sint (readerCount s) \<noteq> 0" using c sint_eq_iff [of "readerCount s" 0] by simp
  show ?thesis
    unfolding good_def
    apply (rule conjI)
     apply (rule ok_update [OF o])
     apply (simp add: ok_def)
    apply (rule ainv_eqI [OF a_Lock_Add_nz [OF a n1 z]])
    using t at v l0
                     apply (simp_all add: upd)
    done
qed

lemma good_Lock_Wait_nz:
  assumes g: "good s ts" and t: "t < length ts" and at: "ts ! t = Running (Lock_Wait r)"
    and c: "readerWait s + r \<noteq> 0"
  shows "good (s\<lparr>readerWait := readerWait s + r\<rparr>) (ts[t := Running Lock_Sem])"
proof -
  note a = g [unfolded good_def, THEN conjunct2] and o = g [unfolded good_def, THEN conjunct1]
  have n1: "1 \<le> cnt W_Announced ts" using cnt_nth [OF t, of W_Announced] at by simp
  have l: "tot lwv ts = sint r"
    using tot_single [OF a_phase(1) [OF a] t, of lwv] at lwv_other by (simp add: lwv_def)
  have v: "sint (readerWait s + r) = sint (readerWait s) + tot lwv ts"
    using a_bounds [OF a] a_Lock_Wait_bounds [OF a n1] sint_add_exact [of "readerWait s" r] l by simp
  have z: "sint (readerWait s) + tot lwv ts \<noteq> 0"
    using v c sint_eq_iff [of "readerWait s + r" 0] by simp
  show ?thesis
    unfolding good_def
    apply (rule conjI)
     apply (rule ok_update [OF o])
     apply (simp add: ok_def)
    apply (rule ainv_eqI [OF a_Lock_Wait_nz [OF a n1 z, of "tot lwv ts - sint r"]])
    using t at v
                     apply (simp_all add: upd)
    done
qed

lemma good_Lock_Wait_z:
  assumes g: "good s ts" and t: "t < length ts" and at: "ts ! t = Running (Lock_Wait r)"
    and c: "readerWait s + r = 0"
  shows "good (s\<lparr>readerWait := readerWait s + r\<rparr>) (ts[t := Writing])"
proof -
  note a = g [unfolded good_def, THEN conjunct2] and o = g [unfolded good_def, THEN conjunct1]
  have n1: "1 \<le> cnt W_Announced ts" using cnt_nth [OF t, of W_Announced] at by simp
  have l: "tot lwv ts = sint r"
    using tot_single [OF a_phase(1) [OF a] t, of lwv] at lwv_other by (simp add: lwv_def)
  have v: "sint (readerWait s + r) = sint (readerWait s) + tot lwv ts"
    using a_bounds [OF a] a_Lock_Wait_bounds [OF a n1] sint_add_exact [of "readerWait s" r] l by simp
  have z: "sint (readerWait s) + tot lwv ts = 0"
    using v c by simp
  show ?thesis
    unfolding good_def
    apply (rule conjI)
     apply (rule ok_update [OF o])
     apply (simp add: ok_def)
    apply (rule ainv_eqI [OF a_Lock_Wait_z [OF a n1 z, of "tot lwv ts - sint r"]])
    using t at v
                     apply (simp_all add: upd)
    done
qed

lemma good_Lock_Sem:
  assumes g: "good s ts" and t: "t < length ts" and at: "ts ! t = Running Lock_Sem"
    and en: "writerSem s \<noteq> 0"
  shows "good (s\<lparr>writerSem := writerSem s - 1\<rparr>) (ts[t := Writing])"
proof -
  note a = g [unfolded good_def, THEN conjunct2] and o = g [unfolded good_def, THEN conjunct1]
  have n1: "1 \<le> cnt W_Parked ts" using cnt_nth [OF t, of W_Parked] at by simp
  have v: "int (writerSem s - 1) = int (writerSem s) - 1" and p: "0 < int (writerSem s)"
    using en by (simp_all add: of_nat_diff)
  show ?thesis
    unfolding good_def
    apply (rule conjI)
     apply (rule ok_update [OF o])
     apply (simp add: ok_def)
    apply (rule ainv_eqI [OF a_Lock_Sem [OF a n1 p]])
    using t at v
                     apply (simp_all add: upd)
    done
qed

lemma good_TryLock_CAS_ok:
  assumes g: "good s ts" and t: "t < length ts" and at: "ts ! t = Running TryLock_CAS"
    and c: "readerCount s = 0"
  shows "good (s\<lparr>readerCount := - rwmutexMaxReaders\<rparr>) (ts[t := Writing])"
proof -
  note a = g [unfolded good_def, THEN conjunct2] and o = g [unfolded good_def, THEN conjunct1]
  have n1: "1 \<le> cnt W_Entering ts" using cnt_nth [OF t, of W_Entering] at by simp
  have z: "sint (readerCount s) = 0" using c by simp
  show ?thesis
    unfolding good_def
    apply (rule conjI)
     apply (rule ok_update [OF o])
     apply (simp add: ok_def)
    apply (rule ainv_eqI [OF a_TryLock_CAS [OF a n1 z]])
    using t at 
                     apply (simp_all add: upd)
    done
qed

lemma good_TryLock_CAS_fail:
  assumes g: "good s ts" and t: "t < length ts" and at: "ts ! t = Running TryLock_CAS"
  shows "good (s) (ts[t := Running TryLock_Unlock])"
proof -
  note a = g [unfolded good_def, THEN conjunct2] and o = g [unfolded good_def, THEN conjunct1]
  show ?thesis
    unfolding good_def
    apply (rule conjI)
     apply (rule ok_update [OF o])
     apply (simp add: ok_def)
    apply (rule ainv_eqI [OF a])
    using t at 
                     apply (simp_all add: upd)
    done
qed

lemma good_TryLock_Unlock:
  assumes g: "good s ts" and t: "t < length ts" and at: "ts ! t = Running TryLock_Unlock"
  shows "good (s\<lparr>w := False\<rparr>) (ts[t := Idle])"
proof -
  note a = g [unfolded good_def, THEN conjunct2] and o = g [unfolded good_def, THEN conjunct1]
  have n1: "1 \<le> cnt W_Entering ts" using cnt_nth [OF t, of W_Entering] at by simp
  show ?thesis
    unfolding good_def
    apply (rule conjI)
     apply (rule ok_update [OF o])
     apply (simp add: ok_def)
    apply (rule ainv_eqI [OF a_TryLock_Unlock [OF a n1]])
    using t at 
                     apply (simp_all add: upd)
    done
qed

lemma good_Unlock_Add:
  assumes g: "good s ts" and t: "t < length ts" and at: "ts ! t = Running Unlock_Add"
  shows "good (s\<lparr>readerCount := readerCount s + rwmutexMaxReaders\<rparr>) (ts[t := Running (Unlock_Loop (readerCount s + rwmutexMaxReaders) 0)])"
proof -
  note a = g [unfolded good_def, THEN conjunct2] and o = g [unfolded good_def, THEN conjunct1]
  have n1: "1 \<le> cnt W_Inside ts" using cnt_nth [OF t, of W_Inside] at by simp
  note b = a_Unlock_Add [OF a n1]
  have v: "sint (readerCount s + rwmutexMaxReaders) = sint (readerCount s) + 1073741824"
    using b(2,3) a_bounds [OF a] sint_add_exact [of "readerCount s" rwmutexMaxReaders] by simp
  have p0: "tot pend ts = 0" using a_phase(4) [OF a n1] by (rule tot_pend_zero)
  show ?thesis
    unfolding good_def
    apply (rule conjI)
     apply (rule ok_update [OF o])
    using v b(2)
     apply (simp add: ok_def)
    apply (rule ainv_eqI [OF b(1)])
    using t at v p0
                     apply (simp_all add: upd)
    done
qed

lemma good_Unlock_Loop_it:
  assumes g: "good s ts" and t: "t < length ts" and at: "ts ! t = Running (Unlock_Loop r i)"
    and c: "i < sint r"
  shows "good (s\<lparr>readerSem := readerSem s + 1\<rparr>) (ts[t := Running (Unlock_Loop r (i + 1))])"
proof -
  note a = g [unfolded good_def, THEN conjunct2] and o = g [unfolded good_def, THEN conjunct1]
  have n1: "1 \<le> cnt W_Leaving ts" using cnt_nth [OF t, of W_Leaving] at by simp
  have l: "tot pend ts = sint r - i"
    using tot_single [OF a_phase(2) [OF a] t, of pend] at pend_other by (simp add: pend_def)
  have oi: "i \<le> sint r" using o [rule_format, OF nth_mem [OF t]] at by (simp add: ok_def)
  have z: "0 < tot pend ts" using l c by simp
  show ?thesis
    unfolding good_def
    apply (rule conjI)
     apply (rule ok_update [OF o])
    using c
     apply (simp add: ok_def)
    apply (rule ainv_eqI [OF a_Unlock_Loop_it [OF a n1 z]])
    using t at l
                     apply (simp_all add: upd)
    done
qed

lemma good_Unlock_Loop_exit:
  assumes g: "good s ts" and t: "t < length ts" and at: "ts ! t = Running (Unlock_Loop r i)"
    and c: "\<not> i < sint r"
  shows "good (s\<lparr>w := False\<rparr>) (ts[t := Idle])"
proof -
  note a = g [unfolded good_def, THEN conjunct2] and o = g [unfolded good_def, THEN conjunct1]
  have n1: "1 \<le> cnt W_Leaving ts" using cnt_nth [OF t, of W_Leaving] at by simp
  have l: "tot pend ts = sint r - i"
    using tot_single [OF a_phase(2) [OF a] t, of pend] at pend_other by (simp add: pend_def)
  have oi: "i \<le> sint r" using o [rule_format, OF nth_mem [OF t]] at by (simp add: ok_def)
  have z: "tot pend ts = 0" using l c oi by simp
  show ?thesis
    unfolding good_def
    apply (rule conjI)
     apply (rule ok_update [OF o])
     apply (simp add: ok_def)
    apply (rule ainv_eqI [OF a_Unlock_Loop_exit [OF a n1 z, of "tot pend ts - (sint r - i)"]])
    using t at 
                     apply (simp_all add: upd)
    done
qed

lemma nofatal_RUnlock_Add:
  assumes g: "good s ts" and t: "t < length ts" and at: "ts ! t = Running RUnlock_Add"
  shows "readerCount s \<noteq> 0 \<and> readerCount s \<noteq> - rwmutexMaxReaders"
proof -
  note a = g [unfolded good_def, THEN conjunct2]
  have n1: "1 \<le> cnt R_Active ts" using cnt_nth [OF t, of R_Active] at by simp
  show ?thesis using a_RUnlock_Add_nofatal [OF a n1] by auto
qed

lemma nofatal_Unlock_Add:
  assumes g: "good s ts" and t: "t < length ts" and at: "ts ! t = Running Unlock_Add"
  shows "\<not> sint rwmutexMaxReaders \<le> sint (readerCount s + rwmutexMaxReaders)"
proof -
  note a = g [unfolded good_def, THEN conjunct2]
  have n1: "1 \<le> cnt W_Inside ts" using cnt_nth [OF t, of W_Inside] at by simp
  note b = a_Unlock_Add [OF a n1]
  have v: "sint (readerCount s + rwmutexMaxReaders) = sint (readerCount s) + 1073741824"
    using b(2,3) a_bounds [OF a] sint_add_exact [of "readerCount s" rwmutexMaxReaders] by simp
  show ?thesis using b(3) v by simp
qed

lemma step_good:
  assumes g: "good s ts" and t: "t < length ts" and at: "ts ! t = Running pc"
    and st: "step pc s = Some (a, out, s')"
  shows "(\<forall>m. out \<noteq> Fatal m) \<and> good s' (ts[t := nxt pc out])"
proof (cases pc)
  case RLock_Add
  note at' = at [unfolded RLock_Add]
  show ?thesis
    using st good_RLock_Add_neg [OF g t at'] good_RLock_Add_pos [OF g t at']
    unfolding RLock_Add by (auto simp: Let_def nxt_def split: if_splits)
next
  case RLock_Sem
  note at' = at [unfolded RLock_Sem]
  show ?thesis
    using st good_RLock_Sem [OF g t at']
    unfolding RLock_Sem by (auto simp: Let_def nxt_def split: if_splits)
next
  case TryRLock_Load
  note at' = at [unfolded TryRLock_Load]
  show ?thesis
    using st good_TryRLock_Load_neg [OF g t at'] good_TryRLock_Load_pos [OF g t at']
    unfolding TryRLock_Load by (auto simp: Let_def nxt_def split: if_splits)
next
  case (TryRLock_CAS c)
  note at' = at [unfolded TryRLock_CAS]
  show ?thesis
    using st good_TryRLock_CAS_fail [OF g t at'] good_TryRLock_CAS_ok [OF g t at']
    unfolding TryRLock_CAS by (auto simp: Let_def nxt_def split: if_splits)
next
  case RUnlock_Add
  note at' = at [unfolded RUnlock_Add]
  show ?thesis
    using st good_RUnlock_Add_fast [OF g t at'] good_RUnlock_Add_slow [OF g t at'] nofatal_RUnlock_Add [OF g t at']
    unfolding RUnlock_Add by (auto simp: Let_def nxt_def split: if_splits)
next
  case RUnlockSlow_Wait
  note at' = at [unfolded RUnlockSlow_Wait]
  show ?thesis
    using st good_RUnlockSlow_Wait_z [OF g t at'] good_RUnlockSlow_Wait_nz [OF g t at']
    unfolding RUnlockSlow_Wait by (auto simp: Let_def nxt_def split: if_splits)
next
  case RUnlockSlow_Sem
  note at' = at [unfolded RUnlockSlow_Sem]
  show ?thesis
    using st good_RUnlockSlow_Sem [OF g t at']
    unfolding RUnlockSlow_Sem by (auto simp: Let_def nxt_def split: if_splits)
next
  case Lock_W
  note at' = at [unfolded Lock_W]
  show ?thesis
    using st good_Lock_W [OF g t at']
    unfolding Lock_W by (auto simp: Let_def nxt_def split: if_splits)
next
  case Lock_Add
  note at' = at [unfolded Lock_Add]
  show ?thesis
    using st good_Lock_Add_z [OF g t at'] good_Lock_Add_nz [OF g t at']
    unfolding Lock_Add by (auto simp: Let_def nxt_def split: if_splits)
next
  case (Lock_Wait r)
  note at' = at [unfolded Lock_Wait]
  show ?thesis
    using st good_Lock_Wait_nz [OF g t at'] good_Lock_Wait_z [OF g t at']
    unfolding Lock_Wait by (auto simp: Let_def nxt_def split: if_splits)
next
  case Lock_Sem
  note at' = at [unfolded Lock_Sem]
  show ?thesis
    using st good_Lock_Sem [OF g t at']
    unfolding Lock_Sem by (auto simp: Let_def nxt_def split: if_splits)
next
  case TryLock_W
  note at' = at [unfolded TryLock_W]
  show ?thesis
    using st good_TryLock_W_fail [OF g t at'] good_TryLock_W_ok [OF g t at']
    unfolding TryLock_W by (auto simp: Let_def nxt_def split: if_splits)
next
  case TryLock_CAS
  note at' = at [unfolded TryLock_CAS]
  show ?thesis
    using st good_TryLock_CAS_ok [OF g t at'] good_TryLock_CAS_fail [OF g t at']
    unfolding TryLock_CAS by (auto simp: Let_def nxt_def split: if_splits)
next
  case TryLock_Unlock
  note at' = at [unfolded TryLock_Unlock]
  show ?thesis
    using st good_TryLock_Unlock [OF g t at']
    unfolding TryLock_Unlock by (auto simp: Let_def nxt_def split: if_splits)
next
  case Unlock_Add
  note at' = at [unfolded Unlock_Add]
  show ?thesis
    using st good_Unlock_Add [OF g t at'] nofatal_Unlock_Add [OF g t at']
    unfolding Unlock_Add by (auto simp: Let_def nxt_def split: if_splits)
next
  case (Unlock_Loop r i)
  note at' = at [unfolded Unlock_Loop]
  show ?thesis
    using st good_Unlock_Loop_it [OF g t at'] good_Unlock_Loop_exit [OF g t at']
    unfolding Unlock_Loop by (auto simp: Let_def nxt_def split: if_splits)
qed

lemma tot_replicate: "tot f (replicate n x) = int n * f x"
  by (induction n) (simp_all add: tot_def algebra_simps)

lemma inv_init: "n \<le> 2 ^ 30 \<Longrightarrow> sys_inv (init n)"
  using a_init [of "int n"]
  by (simp add: sys_inv_def init_def good_def zero_RWMutex_def cnt_replicate_Idle tot_replicate
      ok_def lwv_def pend_def)

lemma inv_fire:
  assumes i: "sys_inv \<sigma>" and f: "fire e \<sigma> = Some \<sigma>'"
  shows "sys_inv \<sigma>'"
proof (cases e)
  case (Call t m)
  with i f show ?thesis
    by (auto simp: sys_inv_def good_call split: if_splits)
next
  case (Step t)
  with f have t: "t < length (threads \<sigma>)" and d: "\<not> dead \<sigma>"
    by (auto split: if_splits)
  from i have g: "good (lock \<sigma>) (threads \<sigma>)" by (simp add: sys_inv_def)
  from f Step t d obtain pc a out s' where
    at: "threads \<sigma> ! t = Running pc" and st: "step pc (lock \<sigma>) = Some (a, out, s')"
    by (auto split: thread.splits option.splits)
  note sg = step_good [OF g t at st]
  from f Step t d at st sg show ?thesis
    by (cases out) (auto simp: sys_inv_def nxt_def)
qed

lemma reachable_inv: "reachable n \<sigma> \<Longrightarrow> n \<le> 2 ^ 30 \<Longrightarrow> sys_inv \<sigma>"
  by (induction rule: reachable.induct) (auto intro: inv_init inv_fire)

lemma reachable_length: "reachable n \<sigma> \<Longrightarrow> length (threads \<sigma>) = n"
proof (induction rule: reachable.induct)
  case reachable_init
  show ?case by (simp add: init_def)
next
  case (reachable_fire \<sigma> e \<sigma>')
  then show ?case
    by (cases e) (auto split: if_splits thread.splits option.splits outcome.splits)
qed

lemma cnt_two:
  assumes i: "i < length ts" and j: "j < length ts" and ij: "i \<noteq> j"
    and ki: "role_of (ts ! i) = k" and kj: "role_of (ts ! j) = k"
  shows "2 \<le> cnt k ts"
proof -
  obtain y where y: "role_of y \<noteq> k"
    by (cases "k = R_Out") (auto intro: that [of Reading] that [of Idle])
  have "cnt k (ts[i := y]) = cnt k ts - 1"
    using i ki y by (simp add: cnt_update)
  moreover have "1 \<le> cnt k (ts[i := y])"
    using cnt_nth [of j "ts[i := y]" k] j ij kj by simp
  ultimately show ?thesis by simp
qed

lemma reachable_good:
  assumes "reachable n \<sigma>" "n \<le> 2 ^ 30"
  shows "good (lock \<sigma>) (threads \<sigma>)" and "\<not> dead \<sigma>" and "length (threads \<sigma>) = n"
  using reachable_inv [OF assms] reachable_length [OF assms(1)] by (simp_all add: sys_inv_def)

lemma reachable_fire_all:
  "reachable n \<sigma> \<Longrightarrow> fire_all es \<sigma> = Some \<sigma>' \<Longrightarrow> reachable n \<sigma>'"
proof (induction es arbitrary: \<sigma>)
  case Nil
  then show ?case by simp
next
  case (Cons e es)
  show ?case
  proof (cases "fire e \<sigma>")
    case None
    with Cons.prems(2) show ?thesis by simp
  next
    case (Some \<sigma>1)
    with Cons.prems(2) have "fire_all es \<sigma>1 = Some \<sigma>'" by simp
    moreover have "reachable n \<sigma>1" using Cons.prems(1) Some by (rule reachable_fire)
    ultimately show ?thesis by (rule Cons.IH [rotated])
  qed
qed

lemmas eval_simps = init_def zero_RWMutex_def rwmutexMaxReaders_def Let_def numeral_2_eq_2
  numeral_3_eq_3

section \<open>Properties of the lock under every interleaving\<close>

text \<open>
  C1 (mutual exclusion): in every state that some interleaving of the calls of at most
  \<open>2 ^ 30\<close> threads reaches, while a thread is inside its write critical section
  (between the return of \<open>Lock\<close> or of a successful \<open>TryLock\<close> and its call of
  \<open>Unlock\<close>), no other thread is inside a write or a read critical section.
\<close>

theorem mutual_exclusion:
  assumes r: "reachable n \<sigma>" and n: "n \<le> 2 ^ 30" and hw: "holds_write \<sigma> i" and ij: "j \<noteq> i"
  shows "\<not> holds_write \<sigma> j \<and> \<not> holds_read \<sigma> j"
proof -
  note g = reachable_good(1) [OF r n]
  note a = g [unfolded good_def, THEN conjunct2]
  from hw have i: "i < length (threads \<sigma>)" and ki: "role_of (threads \<sigma> ! i) = W_Inside"
    by (simp_all add: holds_write_def)
  note m = a_mutex [OF a cnt_nth [OF i ki]]
  have "\<not> holds_write \<sigma> j"
  proof
    assume "holds_write \<sigma> j"
    then have "j < length (threads \<sigma>)" "role_of (threads \<sigma> ! j) = W_Inside"
      by (simp_all add: holds_write_def)
    from cnt_two [OF i this(1) ij [symmetric] ki this(2)] m show False by simp
  qed
  moreover have "\<not> holds_read \<sigma> j"
  proof
    assume "holds_read \<sigma> j"
    then have "j < length (threads \<sigma>)" "role_of (threads \<sigma> ! j) = R_Active"
      by (simp_all add: holds_read_def)
    from cnt_nth [OF this] m show False by simp
  qed
  ultimately show ?thesis by simp
qed

theorem mutual_exclusion_witness:
  "reachable 2 writer_inside \<and> (2::nat) \<le> 2 ^ 30 \<and> holds_write writer_inside 0 \<and>
   \<not> holds_write writer_inside 1 \<and> \<not> holds_read writer_inside 1"
proof -
  have f: "fire_all [Call 0 M_Lock, Step 0, Step 0] (init 2) = Some writer_inside"
    by (simp add: writer_inside_def eval_simps)
  have r: "reachable 2 writer_inside"
    using reachable_fire_all [OF reachable_init f] .
  have n: "(2::nat) \<le> 2 ^ 30" by simp
  have hw: "holds_write writer_inside 0" by (simp add: holds_write_def writer_inside_def)
  from mutual_exclusion [OF r n hw, of 1] r n hw show ?thesis by simp
qed
















end
